theory Spec2Isabelle
  imports Main "HOL-Library.Word" "HOL-Library.Multiset"
begin

section \<open>Error codes and outcomes\<close>

text \<open>
  The engine reports failures in three ways, and the model keeps them apart:
  \<^item> an \<open>ErrorCode\<close> (or an \<open>ErrorStack\<close> wrapping one) returned to the caller;
  \<^item> \<open>COERCE_ERROR\<close>, which dumps the error and aborts the process;
  \<^item> \<open>ASSERT_ND\<close>, which aborts when its condition is false.
  A function that can abort returns \<open>fault + 'a\<close>; \<open>Inl\<close> is the abort.  The error
  codes named here are the ones the two source files use; \<open>kErrorCodeOther n\<close> stands
  for any code handed up by a collaborator (gleaner, composer, file system, savepoint).
\<close>

datatype ErrorCode =
    kErrorCodeOk
  | kErrorCodeMemoryNoFreePages
  | kErrorCodeMemoryDuplicatePage
  | kErrorCodeFsMkdirFailed
  | kErrorCodeOther nat

datatype fault =
    AssertNd
  | CoerceError ErrorCode

section \<open>The page pool (page_pool_pimpl.cpp)\<close>

type_synonym PagePoolOffset = "32 word"

text \<open>
  Modelled from the spec: \<open>PagePoolOffsetChunk\<close>, whose class is not among the source
  files.  The spec calls it a bounded buffer of offsets exchanged at the boundary.  The
  buffer is the list of the offsets it holds, oldest first; \<open>size\<close> is its length and
  \<open>capacity\<close> its bound.  \<open>push_back(begin, end)\<close> appends a range of offsets;
  \<open>move_to(destination, n)\<close> hands the last \<open>n\<close> offsets, in buffer order, to
  the destination and removes them from the buffer.
\<close>

record PagePoolOffsetChunk =
  capacity :: nat
  chunk_offsets :: "PagePoolOffset list"

definition size_chunk :: "PagePoolOffsetChunk \<Rightarrow> nat" where
  "size_chunk chunk = length (chunk_offsets chunk)"

definition empty_chunk :: "PagePoolOffsetChunk \<Rightarrow> bool" where
  "empty_chunk chunk \<longleftrightarrow> size_chunk chunk = 0"

definition clear :: "PagePoolOffsetChunk \<Rightarrow> PagePoolOffsetChunk" where
  "clear chunk = chunk\<lparr>chunk_offsets := []\<rparr>"

definition push_back :: "PagePoolOffset list \<Rightarrow> PagePoolOffsetChunk \<Rightarrow> PagePoolOffsetChunk" where
  "push_back offsets chunk = chunk\<lparr>chunk_offsets := chunk_offsets chunk @ offsets\<rparr>"

definition move_to :: "nat \<Rightarrow> PagePoolOffsetChunk \<Rightarrow> PagePoolOffset list \<times> PagePoolOffsetChunk" where
  "move_to n chunk =
     (drop (size_chunk chunk - n) (chunk_offsets chunk),
      chunk\<lparr>chunk_offsets := take (size_chunk chunk - n) (chunk_offsets chunk)\<rparr>)"

text \<open>
  The pool.  \<open>free_pool\<close> is the array of offsets used as a circular queue, with
  \<open>free_pool_capacity\<close> entries; the three cursors and \<open>pool_size\<close> are 64-bit unsigned
  integers in the source.  \<open>pages_for_free_pool\<close> is the number of pages at the start of
  the arena that hold the array itself.  (The source writes every member with a trailing
  underscore, which an Isabelle name cannot end with.)
\<close>

record PagePoolPimpl =
  pool_size :: "64 word"
  pages_for_free_pool :: "64 word"
  free_pool :: "PagePoolOffset list"
  free_pool_capacity :: "64 word"
  free_pool_head :: "64 word"
  free_pool_count :: "64 word"

text \<open>
  Pointer ranges into \<open>free_pool\<close>: \<open>read_range a i n\<close> is what
  \<open>push_back(free_pool + i, free_pool + i + n)\<close> reads, and \<open>write_range a i xs\<close> is the
  array after \<open>memcpy(free_pool + i, xs)\<close>.  Both stay inside the array whenever
  \<open>i + n\<close> does not pass its end.
\<close>

definition read_range :: "'a list \<Rightarrow> nat \<Rightarrow> nat \<Rightarrow> 'a list" where
  "read_range a i n = take n (drop i a)"

definition write_range :: "'a list \<Rightarrow> nat \<Rightarrow> 'a list \<Rightarrow> 'a list" where
  "write_range a i xs = take i a @ xs @ drop (i + length xs) a"

text \<open>
  \<open>PagePoolPimpl::grab\<close>.  The assertion on \<open>is_initialized()\<close> is not modelled: the record
  is an initialized pool.  The mutex is held for the whole body, so the body is one
  atomic step on the pool.
\<close>

definition grab ::
  "32 word \<Rightarrow> PagePoolOffsetChunk \<Rightarrow> PagePoolPimpl
     \<Rightarrow> fault + (ErrorCode \<times> PagePoolOffsetChunk \<times> PagePoolPimpl)" where
  "grab desired_grab_count chunk p =
     (if \<not> (size_chunk chunk + unat desired_grab_count \<le> capacity chunk) then Inl AssertNd
      else if free_pool_count p = 0 then Inr (kErrorCodeMemoryNoFreePages, chunk, p)
      else
        let grab_count = min (ucast desired_grab_count) (free_pool_count p);
            head = free_pool_head p;
            (chunk, p, grab_count, head) =
              (if free_pool_head p + grab_count > free_pool_capacity p then
                 let wrap_count = free_pool_capacity p - free_pool_head p;
                     chunk = push_back (read_range (free_pool p) (unat head) (unat wrap_count)) chunk;
                     p = p\<lparr>free_pool_head := 0\<rparr>;
                     p = p\<lparr>free_pool_count := free_pool_count p - wrap_count\<rparr>
                 in (chunk, p, grab_count - wrap_count, 0)
               else (chunk, p, grab_count, head))
        in if \<not> (free_pool_head p + grab_count \<le> free_pool_capacity p) then Inl AssertNd
           else
             let chunk = push_back (read_range (free_pool p) (unat head) (unat grab_count)) chunk;
                 p = p\<lparr>free_pool_head := free_pool_head p + grab_count\<rparr>;
                 p = p\<lparr>free_pool_count := free_pool_count p - grab_count\<rparr>
             in Inr (kErrorCodeOk, chunk, p))"

text \<open>
  \<open>PagePoolPimpl::release\<close>.  \<open>COERCE_ERROR\<close> aborts the process, so nothing after it
  runs.  \<open>std::min<uint64_t>\<close> compares the two counts as numbers and the result is kept
  in a 64-bit variable.  \<open>wrap_count\<close> is a 32-bit variable in the source, hence the two
  casts.
\<close>

definition release ::
  "32 word \<Rightarrow> PagePoolOffsetChunk \<Rightarrow> PagePoolPimpl
     \<Rightarrow> fault + (PagePoolOffsetChunk \<times> PagePoolPimpl)" where
  "release desired_release_count chunk p =
     (if \<not> (size_chunk chunk \<ge> unat desired_release_count) then Inl AssertNd
      else if free_pool_count p + ucast desired_release_count > free_pool_capacity p
        then Inl (CoerceError kErrorCodeMemoryDuplicatePage)
      else
        let release_count = (word_of_nat (min (unat desired_release_count) (size_chunk chunk)) :: 64 word);
            tail = free_pool_head p + free_pool_count p;
            tail = (if tail \<ge> free_pool_capacity p then tail - free_pool_capacity p else tail);
            (chunk, p, release_count, tail) =
              (if tail + release_count > free_pool_capacity p then
                 let wrap_count = (ucast (free_pool_capacity p - tail) :: 32 word);
                     (moved, chunk) = move_to (unat wrap_count) chunk;
                     p = p\<lparr>free_pool := write_range (free_pool p) (unat tail) moved\<rparr>;
                     p = p\<lparr>free_pool_count := free_pool_count p + ucast wrap_count\<rparr>
                 in (chunk, p, release_count - ucast wrap_count, 0)
               else (chunk, p, release_count, tail))
        in if \<not> (tail + release_count \<le> free_pool_capacity p) then Inl AssertNd
           else
             let (moved, chunk) = move_to (unat release_count) chunk;
                 p = p\<lparr>free_pool := write_range (free_pool p) (unat tail) moved\<rparr>;
                 p = p\<lparr>free_pool_count := free_pool_count p + release_count\<rparr>
             in Inr (chunk, p))"

subsection \<open>The live window and the pool invariant\<close>

text \<open>
  \<open>window a cap h n\<close> lists the \<open>n\<close> entries of the circular array \<open>a\<close> of \<open>cap\<close> slots
  that start at slot \<open>h\<close>.  The live window of a pool is the window of \<open>free_pool_count\<close>
  entries that starts at \<open>free_pool_head\<close>: the offsets that are free, in the order
  \<open>grab\<close> hands them out.
\<close>

definition window :: "'a list \<Rightarrow> nat \<Rightarrow> nat \<Rightarrow> nat \<Rightarrow> 'a list" where
  "window a cap h n = map (\<lambda>i. a ! ((h + i) mod cap)) [0 ..< n]"

definition live_window :: "PagePoolPimpl \<Rightarrow> PagePoolOffset list" where
  "live_window p =
     window (free_pool p) (unat (free_pool_capacity p)) (unat (free_pool_head p))
       (unat (free_pool_count p))"

text \<open>
  What \<open>initialize_once\<close> sets up and every later call keeps: the array has
  \<open>free_pool_capacity\<close> slots, the cursors stay within the capacity (the head may equal
  it, just before it wraps), and offsets are 32-bit, so at most \<open>2^32\<close> pages are tracked.
\<close>

definition pool_wf :: "PagePoolPimpl \<Rightarrow> bool" where
  "pool_wf p \<longleftrightarrow>
     length (free_pool p) = unat (free_pool_capacity p) \<and>
     unat (free_pool_capacity p) \<le> 2 ^ 32 \<and>
     free_pool_head p \<le> free_pool_capacity p \<and>
     free_pool_count p \<le> free_pool_capacity p"

definition in_pool_range :: "PagePoolPimpl \<Rightarrow> PagePoolOffset \<Rightarrow> bool" where
  "in_pool_range p offset \<longleftrightarrow>
     unat (pages_for_free_pool p) \<le> unat offset \<and> unat offset < unat (pool_size p)"

definition pool_inv :: "PagePoolPimpl \<Rightarrow> bool" where
  "pool_inv p \<longleftrightarrow>
     pool_wf p \<and>
     unat (pages_for_free_pool p) + unat (free_pool_capacity p) = unat (pool_size p) \<and>
     distinct (live_window p) \<and>
     list_all (in_pool_range p) (live_window p)"

subsection \<open>Sequences of calls\<close>

text \<open>
  A caller owns some chunks and calls \<open>grab\<close> and \<open>release\<close> on them.  A call names the
  chunk by its position and the desired count.  The two counters record how many offsets
  the calls so far have actually moved out of and into the pool.
\<close>

datatype pool_call = Grab nat "32 word" | Release nat "32 word"

record pool_system =
  pool :: PagePoolPimpl
  chunks :: "PagePoolOffsetChunk list"
  sum_grabbed :: nat
  sum_released :: nat

definition start :: "PagePoolPimpl \<Rightarrow> PagePoolOffsetChunk list \<Rightarrow> pool_system" where
  "start p cs = \<lparr>pool = p, chunks = cs, sum_grabbed = 0, sum_released = 0\<rparr>"

fun call :: "pool_call \<Rightarrow> pool_system \<Rightarrow> fault + pool_system" where
  "call (Grab i desired) s =
     (case grab desired (chunks s ! i) (pool s) of
        Inl f \<Rightarrow> Inl f
      | Inr (error_code, chunk, p) \<Rightarrow>
          Inr (s\<lparr>pool := p, chunks := (chunks s)[i := chunk],
                 sum_grabbed := sum_grabbed s + (size_chunk chunk - size_chunk (chunks s ! i))\<rparr>))"
| "call (Release i desired) s =
     (case release desired (chunks s ! i) (pool s) of
        Inl f \<Rightarrow> Inl f
      | Inr (chunk, p) \<Rightarrow>
          Inr (s\<lparr>pool := p, chunks := (chunks s)[i := chunk],
                 sum_released := sum_released s + (size_chunk (chunks s ! i) - size_chunk chunk)\<rparr>))"

fun calls :: "pool_call list \<Rightarrow> pool_system \<Rightarrow> fault + pool_system" where
  "calls [] s = Inr s"
| "calls (c # cs) s = (case call c s of Inl f \<Rightarrow> Inl f | Inr s' \<Rightarrow> calls cs s')"

text \<open>
  The preconditions of one call, in the state it runs in: the chunk exists, the size
  assertion of the call holds, and a release does not bring the total released above the
  total grabbed plus \<open>initial_content\<close>, the number of offsets the chunks held at the
  start.  \<open>respects_preconditions\<close> checks them along a whole sequence.
\<close>

fun precondition :: "nat \<Rightarrow> pool_call \<Rightarrow> pool_system \<Rightarrow> bool" where
  "precondition initial_content (Grab i desired) s \<longleftrightarrow>
     i < length (chunks s) \<and>
     size_chunk (chunks s ! i) + unat desired \<le> capacity (chunks s ! i)"
| "precondition initial_content (Release i desired) s \<longleftrightarrow>
     i < length (chunks s) \<and>
     unat desired \<le> size_chunk (chunks s ! i) \<and>
     sum_released s + unat desired \<le> sum_grabbed s + initial_content"

fun respects_preconditions :: "nat \<Rightarrow> pool_call list \<Rightarrow> pool_system \<Rightarrow> bool" where
  "respects_preconditions initial_content [] s = True"
| "respects_preconditions initial_content (c # cs) s =
     (precondition initial_content c s \<and>
      (case call c s of Inl f \<Rightarrow> True | Inr s' \<Rightarrow> respects_preconditions initial_content cs s'))"

definition held_offsets :: "pool_system \<Rightarrow> PagePoolOffset list" where
  "held_offsets s = concat (map chunk_offsets (chunks s))"

text \<open>
  Ownership: every page is in one place.  The free offsets of the pool and the offsets
  held in the chunks are pairwise distinct, and all of them are pages of this pool.
\<close>

definition system_inv :: "pool_system \<Rightarrow> bool" where
  "system_inv s \<longleftrightarrow>
     pool_wf (pool s) \<and>
     unat (pages_for_free_pool (pool s)) + unat (free_pool_capacity (pool s))
       = unat (pool_size (pool s)) \<and>
     distinct (live_window (pool s) @ held_offsets s) \<and>
     list_all (in_pool_range (pool s)) (live_window (pool s) @ held_offsets s)"

section \<open>The snapshot manager (snapshot_manager_pimpl.cpp)\<close>

subsection \<open>Epochs, snapshot ids and snapshots\<close>

text \<open>
  Modelled from the spec: \<open>Epoch\<close>, whose class is not among the source files.  The spec
  describes it as a monotonically increasing integer, valid iff nonzero, totally ordered.
\<close>

type_synonym Epoch = nat

definition kEpochInvalid :: Epoch where
  "kEpochInvalid = 0"

definition is_valid :: "Epoch \<Rightarrow> bool" where
  "is_valid epoch \<longleftrightarrow> epoch \<noteq> kEpochInvalid"

text \<open>
  Modelled from the spec: \<open>SnapshotId\<close>, \<open>kNullSnapshotId\<close> and \<open>increment\<close>, declared in a
  header that is not among the source files.  The spec: a 32-bit integer, 0 reserved as
  null; the successor is \<open>increment\<close>, wrap-safe and skipping 0.
\<close>

type_synonym SnapshotId = "32 word"

definition kNullSnapshotId :: SnapshotId where
  "kNullSnapshotId = 0"

definition increment :: "SnapshotId \<Rightarrow> SnapshotId" where
  "increment i = (if i + 1 = kNullSnapshotId then 1 else i + 1)"

type_synonym StorageId = nat
type_synonym SnapshotPagePointer = "64 word"
type_synonym time_point = nat

record Snapshot =
  snapshot_id :: SnapshotId
  base_epoch :: Epoch
  valid_until_epoch :: Epoch
  max_storage_id :: StorageId

record SnapshotMetadata =
  metadata_id :: SnapshotId
  metadata_base_epoch :: Epoch
  metadata_valid_until_epoch :: Epoch
  largest_storage_id :: StorageId
  root_snapshot_page_ids :: "(StorageId \<times> SnapshotPagePointer) list"

subsection \<open>The engine as the snapshot manager sees it\<close>

text \<open>
  What the collaborators do is recorded as events, in the order of the calls: the
  gleaner ran, a metadata file was saved and synced, the savepoint was taken, transaction
  acceptance was paused or resumed, the waiters on \<open>snapshot_taken\<close> were woken.
\<close>

datatype event =
    GleanerExecuted SnapshotId
  | MetadataFileSaved SnapshotId
  | SavepointTaken SnapshotId Epoch
  | XctPaused
  | XctResumed
  | SnapshotTakenBroadcast Epoch

text \<open>
  The state: the three fields of the control block the master daemon uses, the
  manager's \<open>previous_snapshot_time\<close>, the interval option, and the collaborators' state
  a snapshot run changes (the metadata files on disk, the savepoint's latest snapshot,
  whether transactions are accepted, the volatile pool of every node).  Time points are
  counted in milliseconds.
\<close>

record engine_state =
  snapshot_epoch :: Epoch
  previous_snapshot_id :: SnapshotId
  immediate_snapshot_requested :: bool
  previous_snapshot_time :: time_point
  snapshot_interval_milliseconds :: nat
  metadata_files :: "SnapshotMetadata list"
  latest_snapshot :: "SnapshotId \<times> Epoch"
  accepting_xct :: bool
  volatile_pools :: "nat \<Rightarrow> PagePoolPimpl"
  events :: "event list"

text \<open>
  What the collaborators answer during one snapshot run.  The composer of a storage
  answers with its result and with what it does to the chunks of dropped pages.
  \<open>kMaxSize\<close> is the capacity of a chunk, a constant of the absent chunk class.
\<close>

record snapshot_env =
  durable_global_epoch :: Epoch
  get_largest_storage_id :: StorageId
  gleaner_execute :: ErrorCode
  gleaner_new_root_page_pointers :: "(StorageId \<times> SnapshotPagePointer) list"
  clone_all_storage_metadata :: ErrorCode
  cloned_root_snapshot_page_id :: "StorageId \<Rightarrow> SnapshotPagePointer"
  folder_exists :: bool
  create_directories :: bool
  save_to_file :: ErrorCode
  take_savepoint_after_snapshot :: ErrorCode
  fileset_initialize :: ErrorCode
  fileset_uninitialize :: ErrorCode
  composer_replace_pointers ::
    "StorageId \<Rightarrow> ErrorCode \<times> (PagePoolOffsetChunk list \<Rightarrow> PagePoolOffsetChunk list)"
  soc_count :: nat
  kMaxSize :: nat
  now :: time_point

subsection \<open>The four phases\<close>

text \<open>
  \<open>glean_logs\<close>: the gleaner runs on this thread; its root pointers are handed back
  whether it failed or not.
\<close>

definition glean_logs ::
  "snapshot_env \<Rightarrow> Snapshot \<Rightarrow> engine_state
     \<Rightarrow> ErrorCode \<times> (StorageId \<times> SnapshotPagePointer) list \<times> engine_state" where
  "glean_logs env new_snapshot st =
     (let result = gleaner_execute env;
          st = st\<lparr>events := events st @ [GleanerExecuted (snapshot_id new_snapshot)]\<rparr>
      in (result, gleaner_new_root_page_pointers env, st))"

text \<open>
  The loop of \<open>snapshot_metadata\<close> that installs the new root pages in the cloned
  metadata, storage by storage; it also counts the installed pages.  The map of new root
  pointers is an association list, searched by \<open>map_of\<close>.
\<close>

fun install_root_pages ::
  "(StorageId \<times> SnapshotPagePointer) list \<Rightarrow> (StorageId \<Rightarrow> SnapshotPagePointer) \<Rightarrow> StorageId list
     \<Rightarrow> fault + ((StorageId \<times> SnapshotPagePointer) list \<times> nat)" where
  "install_root_pages new_root_page_pointers meta [] = Inr ([], 0)"
| "install_root_pages new_root_page_pointers meta (storage # rest) =
     (case map_of new_root_page_pointers storage of
        None \<Rightarrow>
          (case install_root_pages new_root_page_pointers meta rest of
             Inl f \<Rightarrow> Inl f
           | Inr (roots, installed) \<Rightarrow> Inr ((storage, meta storage) # roots, installed))
      | Some new_pointer \<Rightarrow>
          if \<not> (new_pointer \<noteq> meta storage) then Inl AssertNd
          else
            (case install_root_pages new_root_page_pointers meta rest of
               Inl f \<Rightarrow> Inl f
             | Inr (roots, installed) \<Rightarrow> Inr ((storage, new_pointer) # roots, Suc installed)))"

definition snapshot_metadata ::
  "snapshot_env \<Rightarrow> Snapshot \<Rightarrow> (StorageId \<times> SnapshotPagePointer) list \<Rightarrow> engine_state
     \<Rightarrow> fault + (ErrorCode \<times> engine_state)" where
  "snapshot_metadata env new_snapshot new_root_page_pointers st =
     (if clone_all_storage_metadata env \<noteq> kErrorCodeOk
        then Inr (clone_all_storage_metadata env, st)
      else
        case install_root_pages new_root_page_pointers (cloned_root_snapshot_page_id env)
               [1 ..< Suc (max_storage_id new_snapshot)] of
          Inl f \<Rightarrow> Inl f
        | Inr (roots, installed_root_pages_count) \<Rightarrow>
            if \<not> (installed_root_pages_count
                     = length (remdups (map fst new_root_page_pointers))) then Inl AssertNd
            else if \<not> folder_exists env \<and> \<not> create_directories env
              then Inr (kErrorCodeFsMkdirFailed, st)
            else if save_to_file env \<noteq> kErrorCodeOk then Inr (save_to_file env, st)
            else
              let metadata = \<lparr>metadata_id = snapshot_id new_snapshot,
                                metadata_base_epoch = base_epoch new_snapshot,
                                metadata_valid_until_epoch = valid_until_epoch new_snapshot,
                                largest_storage_id = max_storage_id new_snapshot,
                                root_snapshot_page_ids = roots\<rparr>;
                  st = st\<lparr>metadata_files := metadata_files st @ [metadata]\<rparr>;
                  st = st\<lparr>events := events st @ [MetadataFileSaved (snapshot_id new_snapshot)]\<rparr>
              in Inr (kErrorCodeOk, st))"

text \<open>
  \<open>snapshot_savepoint\<close>.  The savepoint manager records the snapshot as the latest one,
  so the two assertions that read it back hold.
\<close>

definition snapshot_savepoint ::
  "snapshot_env \<Rightarrow> Snapshot \<Rightarrow> engine_state \<Rightarrow> fault + (ErrorCode \<times> engine_state)" where
  "snapshot_savepoint env new_snapshot st =
     (if take_savepoint_after_snapshot env \<noteq> kErrorCodeOk
        then Inr (take_savepoint_after_snapshot env, st)
      else
        let st = st\<lparr>latest_snapshot := (snapshot_id new_snapshot, valid_until_epoch new_snapshot)\<rparr>;
            st = st\<lparr>events := events st
                   @ [SavepointTaken (snapshot_id new_snapshot) (valid_until_epoch new_snapshot)]\<rparr>
        in if \<not> (fst (latest_snapshot st) = snapshot_id new_snapshot) then Inl AssertNd
           else if \<not> (snd (latest_snapshot st) = valid_until_epoch new_snapshot) then Inl AssertNd
           else Inr (kErrorCodeOk, st))"

text \<open>
  The storage loop of \<open>replace_pointers\<close>: the composer of every storage that has a new
  root page is called, in increasing storage id; the first error ends the loop and is
  the loop's result.
\<close>

fun replace_pointers_loop ::
  "snapshot_env \<Rightarrow> (StorageId \<times> SnapshotPagePointer) list \<Rightarrow> StorageId list
     \<Rightarrow> ErrorCode \<Rightarrow> PagePoolOffsetChunk list \<Rightarrow> ErrorCode \<times> PagePoolOffsetChunk list" where
  "replace_pointers_loop env new_root_page_pointers [] result dropped_chunks =
     (result, dropped_chunks)"
| "replace_pointers_loop env new_root_page_pointers (storage # rest) result dropped_chunks =
     (case map_of new_root_page_pointers storage of
        None \<Rightarrow> replace_pointers_loop env new_root_page_pointers rest result dropped_chunks
      | Some new_root_page_pointer \<Rightarrow>
          let (result, dropped) = composer_replace_pointers env storage;
              dropped_chunks = dropped dropped_chunks
          in if result \<noteq> kErrorCodeOk then (result, dropped_chunks)
             else replace_pointers_loop env new_root_page_pointers rest result dropped_chunks)"

text \<open>
  The last loop of \<open>replace_pointers\<close>: what is left in the chunk of each node goes back
  to the volatile pool of that node.
\<close>

fun release_dropped_chunks ::
  "nat list \<Rightarrow> PagePoolOffsetChunk list \<Rightarrow> (nat \<Rightarrow> PagePoolPimpl)
     \<Rightarrow> fault + (nat \<Rightarrow> PagePoolPimpl)" where
  "release_dropped_chunks [] dropped_chunks pools = Inr pools"
| "release_dropped_chunks (node # nodes) dropped_chunks pools =
     (let chunk = dropped_chunks ! node;
          volatile_pool = pools node
      in if \<not> empty_chunk chunk then
           (case release (word_of_nat (size_chunk chunk)) chunk volatile_pool of
              Inl f \<Rightarrow> Inl f
            | Inr (chunk, volatile_pool) \<Rightarrow>
                if \<not> empty_chunk chunk then Inl AssertNd
                else release_dropped_chunks nodes dropped_chunks (pools(node := volatile_pool)))
         else release_dropped_chunks nodes dropped_chunks pools)"

definition replace_pointers ::
  "snapshot_env \<Rightarrow> Snapshot \<Rightarrow> (StorageId \<times> SnapshotPagePointer) list \<Rightarrow> engine_state
     \<Rightarrow> fault + (ErrorCode \<times> engine_state)" where
  "replace_pointers env new_snapshot new_root_page_pointers st =
     (let dropped_chunks =
            map clear (replicate (soc_count env) \<lparr>capacity = kMaxSize env, chunk_offsets = []\<rparr>)
      in if fileset_initialize env \<noteq> kErrorCodeOk then Inr (fileset_initialize env, st)
         else
           let st = st\<lparr>accepting_xct := False\<rparr>;
               st = st\<lparr>events := events st @ [XctPaused]\<rparr>;
               (result, dropped_chunks) =
                 replace_pointers_loop env new_root_page_pointers
                   [1 ..< Suc (max_storage_id new_snapshot)] kErrorCodeOk dropped_chunks;
               st = st\<lparr>accepting_xct := True\<rparr>;
               st = st\<lparr>events := events st @ [XctResumed]\<rparr>
           in case release_dropped_chunks [0 ..< soc_count env] dropped_chunks (volatile_pools st) of
                Inl f \<Rightarrow> Inl f
              | Inr pools \<Rightarrow> Inr (result, st\<lparr>volatile_pools := pools\<rparr>))"

subsection \<open>One snapshot run\<close>

text \<open>
  \<open>handle_snapshot_triggered\<close>.  \<open>CHECK_ERROR\<close> returns the error of a phase at once;
  the snapshot handed back is the caller's \<open>new_snapshot\<close> as filled in so far.
\<close>

definition handle_snapshot_triggered ::
  "snapshot_env \<Rightarrow> engine_state \<Rightarrow> fault + (ErrorCode \<times> Snapshot \<times> engine_state)" where
  "handle_snapshot_triggered env st =
     (let durable_epoch = durable_global_epoch env;
          previous_epoch = snapshot_epoch st
      in if \<not> (is_valid durable_epoch \<and>
                 (\<not> is_valid previous_epoch \<or> durable_epoch > previous_epoch)) then Inl AssertNd
         else
           let issued_id =
                 (if previous_snapshot_id st = kNullSnapshotId then 1
                  else increment (previous_snapshot_id st));
               new_snapshot = \<lparr>snapshot_id = issued_id,
                                base_epoch = previous_epoch,
                                valid_until_epoch = durable_epoch,
                                max_storage_id = get_largest_storage_id env\<rparr>
           in case glean_logs env new_snapshot st of
                (result, new_root_page_pointers, st) \<Rightarrow>
           if result \<noteq> kErrorCodeOk then Inr (result, new_snapshot, st)
           else case snapshot_metadata env new_snapshot new_root_page_pointers st of
                  Inl f \<Rightarrow> Inl f
                | Inr (result, st) \<Rightarrow>
           if result \<noteq> kErrorCodeOk then Inr (result, new_snapshot, st)
           else case snapshot_savepoint env new_snapshot st of
                  Inl f \<Rightarrow> Inl f
                | Inr (result, st) \<Rightarrow>
           if result \<noteq> kErrorCodeOk then Inr (result, new_snapshot, st)
           else case replace_pointers env new_snapshot new_root_page_pointers st of
                  Inl f \<Rightarrow> Inl f
                | Inr (result, st) \<Rightarrow>
           if result \<noteq> kErrorCodeOk then Inr (result, new_snapshot, st)
           else
             let new_snapshot_epoch = valid_until_epoch new_snapshot
             in if \<not> (is_valid new_snapshot_epoch \<and>
                        (\<not> is_valid (snapshot_epoch st) \<or> new_snapshot_epoch > snapshot_epoch st))
                  then Inl AssertNd
                else
                  let epoch_after = new_snapshot_epoch;
                      st = st\<lparr>previous_snapshot_id := issued_id\<rparr>;
                      st = st\<lparr>previous_snapshot_time := now env\<rparr>;
                      st = st\<lparr>snapshot_epoch := epoch_after\<rparr>;
                      st = st\<lparr>events := events st @ [SnapshotTakenBroadcast epoch_after]\<rparr>
                  in Inr (kErrorCodeOk, new_snapshot, st))"

subsection \<open>The master daemon\<close>

text \<open>
  What the daemon observes at one wakeup: the stop flag at the loop test and again after
  \<open>sleep_a_while\<close>, the clock, the durable epoch, and the collaborators' answers should
  a snapshot run start.
\<close>

record wakeup =
  stop_requested_at_loop_test :: bool
  stop_requested_after_sleep :: bool
  clock_now :: time_point
  durable_epoch_at_wakeup :: Epoch
  run_env :: snapshot_env

text \<open>
  The trigger check of \<open>handle_snapshot\<close>: the chain of conditions that sets the local
  variable \<open>triggered\<close>, together with the state it leaves.
\<close>

definition triggered :: "wakeup \<Rightarrow> engine_state \<Rightarrow> bool \<times> engine_state" where
  "triggered w st =
     (let until = previous_snapshot_time st + snapshot_interval_milliseconds st;
          durable_epoch = durable_epoch_at_wakeup w;
          previous_epoch = snapshot_epoch st
      in if is_valid previous_epoch \<and> previous_epoch = durable_epoch then (False, st)
         else if immediate_snapshot_requested st
           then (True, st\<lparr>immediate_snapshot_requested := False\<rparr>)
         else if clock_now w \<ge> until then (True, st)
         else (False, st))"

datatype loop_control = Continue | Break

text \<open>
  The body of the daemon's loop, from \<open>sleep_a_while\<close> on.  \<open>COERCE_ERROR\<close> aborts the
  process when the snapshot run returns an error.
\<close>

definition handle_snapshot_body ::
  "wakeup \<Rightarrow> engine_state \<Rightarrow> fault + (loop_control \<times> engine_state)" where
  "handle_snapshot_body w st =
     (if stop_requested_after_sleep w then Inr (Break, st)
      else
        case triggered w st of
          (is_triggered, st) \<Rightarrow>
            if is_triggered then
              (case handle_snapshot_triggered (run_env w) st of
                 Inl f \<Rightarrow> Inl f
               | Inr (result, new_snapshot, st) \<Rightarrow>
                   if result \<noteq> kErrorCodeOk then Inl (CoerceError result)
                   else Inr (Continue, st))
            else Inr (Continue, st))"

text \<open>
  The loop itself, over the wakeups the daemon lives through.  (The spin before the
  loop, which waits for the engine to be initialized, changes nothing.)
\<close>

fun handle_snapshot :: "wakeup list \<Rightarrow> engine_state \<Rightarrow> fault + engine_state" where
  "handle_snapshot [] st = Inr st"
| "handle_snapshot (w # ws) st =
     (if stop_requested_at_loop_test w then Inr st
      else
        case handle_snapshot_body w st of
          Inl f \<Rightarrow> Inl f
        | Inr (Break, st) \<Rightarrow> Inr st
        | Inr (Continue, st) \<Rightarrow> handle_snapshot ws st)"

subsection \<open>Sequences of snapshot runs\<close>

text \<open>
  The snapshots of the runs that returned success, in order, when
  \<open>handle_snapshot_triggered\<close> is run once per environment.  A run that returns an error
  contributes none; an abort ends the sequence.
\<close>

fun successful_snapshots :: "snapshot_env list \<Rightarrow> engine_state \<Rightarrow> Snapshot list" where
  "successful_snapshots [] st = []"
| "successful_snapshots (env # envs) st =
     (case handle_snapshot_triggered env st of
        Inl f \<Rightarrow> []
      | Inr (result, new_snapshot, st') \<Rightarrow>
          (if result = kErrorCodeOk then [new_snapshot] else []) @ successful_snapshots envs st')"

subsection \<open>Concrete pools and chunks\<close>

text \<open>
  A pool of five pages: page 0 holds the free list, pages 1 to 4 are handed out.  The
  three states differ in the cursors.
\<close>

definition pool4 :: PagePoolPimpl where
  "pool4 = \<lparr>pool_size = 5, pages_for_free_pool = 1, free_pool = [1, 2, 3, 4],
            free_pool_capacity = 4, free_pool_head = 3, free_pool_count = 3\<rparr>"

definition chunk8 :: PagePoolOffsetChunk where
  "chunk8 = \<lparr>capacity = 8, chunk_offsets = []\<rparr>"

definition pool4_empty :: PagePoolPimpl where
  "pool4_empty = \<lparr>pool_size = 5, pages_for_free_pool = 1, free_pool = [1, 2, 3, 4],
            free_pool_capacity = 4, free_pool_head = 2, free_pool_count = 0\<rparr>"

definition chunk8_held :: PagePoolOffsetChunk where
  "chunk8_held = \<lparr>capacity = 8, chunk_offsets = [4, 1]\<rparr>"

definition pool4_low :: PagePoolPimpl where
  "pool4_low = \<lparr>pool_size = 5, pages_for_free_pool = 1, free_pool = [1, 2, 3, 4],
            free_pool_capacity = 4, free_pool_head = 1, free_pool_count = 2\<rparr>"

section \<open>Properties of the page pool\<close>

subsection \<open>Windows of a circular array\<close>

lemma length_window [simp]: "length (window a cap h n) = n"
  by (simp add: window_def)

lemma nth_window: "i < n \<Longrightarrow> window a cap h n ! i = a ! ((h + i) mod cap)"
  by (simp add: window_def)

lemma mod_twice: "(j::nat) < 2 * cap \<Longrightarrow> j mod cap = (if j < cap then j else j - cap)"
  by (simp add: mod_if)

lemma window_read_range:
  "h + k \<le> cap \<Longrightarrow> length a = cap \<Longrightarrow> read_range a h k = window a cap h k"
  by (rule nth_equalityI) (auto simp: read_range_def nth_window)

lemma take_window: "take k (window a cap h n) = window a cap h (min k n)"
  by (rule nth_equalityI) (auto simp: nth_window)

lemma drop_window: "drop k (window a cap h n) = window a cap (h + k) (n - k)"
  by (rule nth_equalityI) (auto simp: nth_window ac_simps)

lemma window_add: "window a cap h (m + n) = window a cap h m @ window a cap (h + m) n"
  by (rule nth_equalityI) (auto simp: nth_window nth_append ac_simps)

lemma window_shift: "window a cap (h + cap) n = window a cap h n"
proof -
  have "(h + cap + i) mod cap = (h + i) mod cap" for i
    by (metis add.assoc add.commute mod_add_self2)
  then show ?thesis by (simp add: window_def)
qed

lemma nth_write_range:
  "t + length xs \<le> length a \<Longrightarrow> j < length a \<Longrightarrow>
   write_range a t xs ! j = (if t \<le> j \<and> j < t + length xs then xs ! (j - t) else a ! j)"
  by (auto simp: write_range_def nth_append)

lemma length_write_range [simp]:
  "t + length xs \<le> length a \<Longrightarrow> length (write_range a t xs) = length a"
  by (simp add: write_range_def)

lemma window_write_range_other:
  "t + length xs \<le> cap \<Longrightarrow> length a = cap \<Longrightarrow> n \<le> cap \<Longrightarrow>
   (\<And>i. i < n \<Longrightarrow> \<not> (t \<le> (h + i) mod cap \<and> (h + i) mod cap < t + length xs)) \<Longrightarrow>
   window (write_range a t xs) cap h n = window a cap h n"
  by (rule nth_equalityI) (auto simp: nth_window nth_write_range)

lemma window_write_range_same:
  "t + length xs \<le> cap \<Longrightarrow> length a = cap \<Longrightarrow>
   window (write_range a t xs) cap t (length xs) = xs"
  by (rule nth_equalityI) (auto simp: nth_window nth_write_range)

lemma unat_32_bound: "unat (d :: 32 word) < 2 ^ 32"
  using unsigned_less [of d, where 'a = nat] by simp

lemma unat_ucast_32_64: "unat (ucast (d :: 32 word) :: 64 word) = unat d"
proof -
  have "unat d < 2 ^ 64"
    using unat_32_bound [of d] by simp
  then show ?thesis
    by (simp add: unsigned_ucast_eq take_bit_nat_eq_self_iff)
qed

lemma unat_add_64: "unat a + unat b < 2 ^ 64 \<Longrightarrow> unat (a + b :: 64 word) = unat a + unat b"
  by (simp add: unat_add_lem [THEN iffD1])

lemma unat_sub_64: "b \<le> a \<Longrightarrow> unat (a - b :: 64 word) = unat a - unat b"
  by (simp add: unat_sub)

lemma unat_min_64: "unat (min a b :: 64 word) = min (unat a) (unat b)"
  by (simp add: min_def word_le_nat_alt)

lemma window_wrap_split:
  assumes "h \<le> cap" "cap - h \<le> k"
  shows "window a cap h k = window a cap h (cap - h) @ window a cap 0 (k - (cap - h))"
proof -
  have "window a cap h k = window a cap h ((cap - h) + (k - (cap - h)))"
    using assms by simp
  also have "\<dots> = window a cap h (cap - h) @ window a cap (h + (cap - h)) (k - (cap - h))"
    by (rule window_add)
  also have "h + (cap - h) = 0 + cap"
    using assms by simp
  also have "window a cap (0 + cap) (k - (cap - h)) = window a cap 0 (k - (cap - h))"
    by (rule window_shift)
  finally show ?thesis .
qed

lemma push_back_push_back: "push_back ys (push_back xs c) = push_back (xs @ ys) c"
  by (simp add: push_back_def)

lemma grab_nowrap:
  assumes wf: "pool_wf p"
    and pre: "size_chunk c + unat d \<le> capacity c"
    and ne: "free_pool_count p \<noteq> 0"
    and nowrap: "unat (free_pool_head p) + min (unat d) (unat (free_pool_count p))
                   \<le> unat (free_pool_capacity p)"
  shows "grab d c p =
     Inr (kErrorCodeOk,
          push_back (take (min (unat d) (unat (free_pool_count p))) (live_window p)) c,
          p\<lparr>free_pool_head := free_pool_head p + min (ucast d) (free_pool_count p),
            free_pool_count := free_pool_count p - min (ucast d) (free_pool_count p)\<rparr>)"
proof -
  define gc where "gc = min (ucast d) (free_pool_count p)"
  define k where "k = min (unat d) (unat (free_pool_count p))"
  have k: "unat gc = k"
    by (simp add: gc_def k_def unat_min_64 unat_ucast_32_64)
  have bounds: "unat (free_pool_capacity p) \<le> 2 ^ 32"
    "unat (free_pool_head p) \<le> unat (free_pool_capacity p)"
    "unat (free_pool_count p) \<le> unat (free_pool_capacity p)"
    "length (free_pool p) = unat (free_pool_capacity p)"
    using wf by (simp_all add: pool_wf_def word_le_nat_alt)
  have sum: "unat (free_pool_head p + gc) = unat (free_pool_head p) + k"
    using bounds nowrap k by (simp add: unat_add_64 k_def)
  have le: "free_pool_head p + gc \<le> free_pool_capacity p"
    using sum nowrap by (simp add: word_le_nat_alt k_def)
  have rd: "read_range (free_pool p) (unat (free_pool_head p)) k = take k (live_window p)"
    using nowrap bounds
    by (simp add: window_read_range live_window_def take_window k_def)
  show ?thesis
    using pre ne le rd k
    by (simp add: grab_def Let_def gc_def [symmetric] k_def [symmetric] not_less [symmetric])
qed

lemma grab_wrap:
  assumes wf: "pool_wf p"
    and pre: "size_chunk c + unat d \<le> capacity c"
    and ne: "free_pool_count p \<noteq> 0"
    and wrap: "unat (free_pool_head p) + min (unat d) (unat (free_pool_count p))
                   > unat (free_pool_capacity p)"
  shows "grab d c p =
     Inr (kErrorCodeOk,
          push_back (take (min (unat d) (unat (free_pool_count p))) (live_window p)) c,
          p\<lparr>free_pool_head := min (ucast d) (free_pool_count p)
                               - (free_pool_capacity p - free_pool_head p),
            free_pool_count := free_pool_count p - min (ucast d) (free_pool_count p)\<rparr>)"
proof -
  define gc where "gc = min (ucast d) (free_pool_count p)"
  define k where "k = min (unat d) (unat (free_pool_count p))"
  define wc where "wc = free_pool_capacity p - free_pool_head p"
  define cap where "cap = unat (free_pool_capacity p)"
  define h where "h = unat (free_pool_head p)"
  have k: "unat gc = k"
    by (simp add: gc_def k_def unat_min_64 unat_ucast_32_64)
  have bounds: "cap \<le> 2 ^ 32" "h \<le> cap" "unat (free_pool_count p) \<le> cap"
    "length (free_pool p) = cap"
    using wf by (simp_all add: pool_wf_def word_le_nat_alt cap_def h_def)
  have kn: "k \<le> unat (free_pool_count p)"
    by (simp add: k_def)
  have sum: "unat (free_pool_head p + gc) = h + k"
    using bounds kn k by (simp add: unat_add_64 h_def)
  have gt: "free_pool_head p + gc > free_pool_capacity p"
    using sum wrap by (simp add: word_less_nat_alt k_def h_def)
  have w: "unat wc = cap - h"
    using wf by (simp add: wc_def unat_sub_64 pool_wf_def cap_def h_def)
  have wk: "cap - h < k"
    using wrap bounds(2) unfolding k_def cap_def h_def by arith
  have wc_le_gc: "wc \<le> gc"
    using w k wk by (simp add: word_le_nat_alt)
  have rest: "unat (gc - wc) = k - (cap - h)"
    using wc_le_gc w k by (simp add: unat_sub_64)
  have le: "gc - wc \<le> free_pool_capacity p"
    using rest bounds kn by (simp add: word_le_nat_alt cap_def [symmetric])
  have cnt: "free_pool_count p - wc - (gc - wc) = free_pool_count p - gc"
    by simp
  have "take k (live_window p) = window (free_pool p) cap h k"
    using kn by (simp add: live_window_def take_window cap_def h_def)
  also have "\<dots> = window (free_pool p) cap h (cap - h) @ window (free_pool p) cap 0 (k - (cap - h))"
    using bounds wk by (intro window_wrap_split) simp_all
  also have "\<dots> = read_range (free_pool p) h (cap - h) @ read_range (free_pool p) 0 (k - (cap - h))"
  proof -
    have "h + (cap - h) \<le> cap" "0 + (k - (cap - h)) \<le> cap"
      using bounds kn by simp_all
    then show ?thesis
      using bounds(4) by (simp only: window_read_range)
  qed
  finally have rd: "read_range (free_pool p) h (cap - h) @ read_range (free_pool p) 0 (k - (cap - h))
      = take k (live_window p)" by simp
  show ?thesis
    using pre ne gt rd k w rest le cnt
    by (simp add: grab_def Let_def gc_def [symmetric] k_def [symmetric] wc_def [symmetric]
        h_def [symmetric] push_back_push_back)
qed

lemma release_nowrap:
  assumes wf: "pool_wf p"
    and pre: "unat d \<le> size_chunk c"
    and room: "unat (free_pool_count p) + unat d \<le> unat (free_pool_capacity p)"
    and t: "t = (if unat (free_pool_capacity p) \<le> unat (free_pool_head p) + unat (free_pool_count p)
                 then unat (free_pool_head p) + unat (free_pool_count p) - unat (free_pool_capacity p)
                 else unat (free_pool_head p) + unat (free_pool_count p))"
    and nowrap: "t + unat d \<le> unat (free_pool_capacity p)"
  shows "release d c p =
     Inr (c\<lparr>chunk_offsets := take (size_chunk c - unat d) (chunk_offsets c)\<rparr>,
          p\<lparr>free_pool := write_range (free_pool p) t (drop (size_chunk c - unat d) (chunk_offsets c)),
            free_pool_count := free_pool_count p + ucast d\<rparr>)"
proof -
  define cap where "cap = unat (free_pool_capacity p)"
  define h where "h = unat (free_pool_head p)"
  define n where "n = unat (free_pool_count p)"
  define r where "r = unat d"
  define tl0 where "tl0 = free_pool_head p + free_pool_count p"
  define tl where "tl = (if tl0 \<ge> free_pool_capacity p then tl0 - free_pool_capacity p else tl0)"
  have bounds: "cap \<le> 2 ^ 32" "h \<le> cap" "n \<le> cap" "length (free_pool p) = cap" "r < 2 ^ 32"
    using wf unat_32_bound [of d]
    by (simp_all add: pool_wf_def word_le_nat_alt cap_def h_def n_def r_def)
  have rc: "(word_of_nat (min r (size_chunk c)) :: 64 word) = ucast d"
    using pre by (simp add: r_def min_absorb1)
  have ud: "unat (ucast d :: 64 word) = r"
    by (simp add: unat_ucast_32_64 r_def)
  have sum: "unat (free_pool_count p + ucast d) = n + r"
    using bounds ud by (simp add: unat_add_64 n_def)
  have nofull: "\<not> free_pool_count p + ucast d > free_pool_capacity p"
    using sum room by (simp add: word_less_nat_alt n_def r_def)
  have tl0: "unat tl0 = h + n"
    using bounds by (simp add: tl0_def unat_add_64 h_def n_def)
  have tl: "unat tl = t"
    using tl0 by (simp add: tl_def t word_le_nat_alt unat_sub_64 cap_def h_def n_def)
  have tsum: "unat (tl + ucast d) = t + r"
    using bounds tl ud nowrap by (simp add: unat_add_64 r_def cap_def)
  have le: "tl + ucast d \<le> free_pool_capacity p" "\<not> tl + ucast d > free_pool_capacity p"
    using tsum nowrap by (simp_all add: word_le_nat_alt word_less_nat_alt r_def)
  show ?thesis
    using pre nofull le tl ud rc
    by (simp add: release_def Let_def tl0_def [symmetric] tl_def [symmetric] r_def [symmetric]
        move_to_def)
qed

lemma unat_ucast_64_32: "unat (x :: 64 word) < 2 ^ 32 \<Longrightarrow> unat (ucast x :: 32 word) = unat x"
  by (simp add: unsigned_ucast_eq take_bit_nat_eq_self_iff)

lemma release_wrap:
  assumes wf: "pool_wf p"
    and pre: "unat d \<le> size_chunk c"
    and room: "unat (free_pool_count p) + unat d \<le> unat (free_pool_capacity p)"
    and t: "t = (if unat (free_pool_capacity p) \<le> unat (free_pool_head p) + unat (free_pool_count p)
                 then unat (free_pool_head p) + unat (free_pool_count p) - unat (free_pool_capacity p)
                 else unat (free_pool_head p) + unat (free_pool_count p))"
    and wrap: "t + unat d > unat (free_pool_capacity p)"
    and w: "w = unat (free_pool_capacity p) - t"
  shows "release d c p =
     Inr (c\<lparr>chunk_offsets := take (size_chunk c - unat d) (chunk_offsets c)\<rparr>,
          p\<lparr>free_pool :=
              write_range
                (write_range (free_pool p) t (drop (size_chunk c - w) (chunk_offsets c)))
                0 (drop (size_chunk c - unat d) (take (size_chunk c - w) (chunk_offsets c))),
            free_pool_count := free_pool_count p + ucast d\<rparr>)"
proof -
  define cap where "cap = unat (free_pool_capacity p)"
  define h where "h = unat (free_pool_head p)"
  define n where "n = unat (free_pool_count p)"
  define r where "r = unat d"
  define tl0 where "tl0 = free_pool_head p + free_pool_count p"
  define tl where "tl = (if tl0 \<ge> free_pool_capacity p then tl0 - free_pool_capacity p else tl0)"
  define wc where "wc = (ucast (free_pool_capacity p - tl) :: 32 word)"
  have bounds: "cap \<le> 2 ^ 32" "h \<le> cap" "n \<le> cap" "length (free_pool p) = cap" "r < 2 ^ 32"
    using wf unat_32_bound [of d]
    by (simp_all add: pool_wf_def word_le_nat_alt cap_def h_def n_def r_def)
  have rc: "(word_of_nat (min r (size_chunk c)) :: 64 word) = ucast d"
    using pre by (simp add: r_def min_absorb1)
  have ud: "unat (ucast d :: 64 word) = r"
    by (simp add: unat_ucast_32_64 r_def)
  have sum: "unat (free_pool_count p + ucast d) = n + r"
    using bounds ud by (simp add: unat_add_64 n_def)
  have nofull: "\<not> free_pool_count p + ucast d > free_pool_capacity p"
    using sum room by (simp add: word_less_nat_alt n_def r_def)
  have tl0: "unat tl0 = h + n"
    using bounds by (simp add: tl0_def unat_add_64 h_def n_def)
  have tl: "unat tl = t"
    using tl0 by (simp add: tl_def t word_le_nat_alt unat_sub_64 cap_def h_def n_def)
  have tcap: "t \<le> cap"
    using bounds unfolding t cap_def [symmetric] h_def [symmetric] n_def [symmetric] by auto
  have tsum: "unat (tl + ucast d) = t + r"
    using bounds tl ud tcap by (simp add: unat_add_64)
  have gt: "tl + ucast d > free_pool_capacity p"
    using tsum wrap by (simp add: word_less_nat_alt r_def)
  have tle: "tl \<le> free_pool_capacity p"
    using tl tcap by (simp add: word_le_nat_alt cap_def)
  have w64: "unat (free_pool_capacity p - tl) = w"
    using tle tl by (simp add: unat_sub_64 w)
  have wr: "w < r" "w \<le> size_chunk c"
    using wrap tcap pre unfolding w cap_def r_def by arith+
  have wc: "unat wc = w"
    using w64 wr bounds by (simp add: wc_def unat_ucast_64_32)
  have wc64: "(ucast wc :: 64 word) = free_pool_capacity p - tl"
    using wc w64 by (simp add: word_unat_eq_iff unat_ucast_32_64)
  have rest: "unat (ucast d - (free_pool_capacity p - tl)) = r - w"
    using w64 ud wr by (simp add: unat_sub_64 word_le_nat_alt)
  have le: "ucast d - (free_pool_capacity p - tl) \<le> free_pool_capacity p"
    using rest bounds room by (simp add: word_le_nat_alt cap_def [symmetric] r_def [symmetric])
  have cnt: "free_pool_count p + (free_pool_capacity p - tl) + (ucast d - (free_pool_capacity p - tl))
      = free_pool_count p + ucast d"
    by simp
  have tk: "min (size_chunk c - w - (r - w)) (size_chunk c - w) = size_chunk c - r"
    using wr pre by (simp add: r_def)
  have sz: "size_chunk c - w - (r - w) = size_chunk c - r"
    using wr pre by (simp add: r_def)
  show ?thesis
    using pre nofull gt le tl ud rc wc wc64 rest cnt tk sz
    by (simp add: release_def Let_def tl0_def [symmetric] tl_def [symmetric] r_def [symmetric]
        wc_def [symmetric] move_to_def size_chunk_def)
qed

lemma ring_disjoint2:
  fixes h cap n r i t :: nat
  assumes "h \<le> cap" "n + r \<le> cap" "i < n"
    and t: "h + n = t \<or> h + n = t + cap \<or> h + n = t + 2 * cap"
  shows "\<not> (t \<le> (h + i) mod cap \<and> (h + i) mod cap < t + r)"
proof -
  have "h + i < 2 * cap" using assms by simp
  then have "(h + i) mod cap = (if h + i < cap then h + i else h + i - cap)"
    by (rule mod_twice)
  then show ?thesis
    using assms by (auto split: if_splits)
qed

lemma window_congruent:
  assumes "h = t \<or> h = t + cap \<or> h = t + 2 * cap"
  shows "window a cap h n = window a cap t n"
  using assms window_shift [of a cap t n] window_shift [of a cap "t + cap" n]
  by (auto simp: mult_2 add.assoc)

lemma window_after_write:
  assumes len: "length a = cap" and h: "h \<le> cap" and room: "n + length xs \<le> cap"
    and fits: "t + length xs \<le> cap"
    and t: "h + n = t \<or> h + n = t + cap \<or> h + n = t + 2 * cap"
  shows "window (write_range a t xs) cap h (n + length xs) = window a cap h n @ xs"
proof -
  have "window (write_range a t xs) cap h n = window a cap h n"
    using fits len room h t by (intro window_write_range_other ring_disjoint2) simp_all
  moreover have "window (write_range a t xs) cap (h + n) (length xs) = xs"
    by (simp only: window_congruent [OF t] window_write_range_same [OF fits len])
  ultimately show ?thesis
    by (simp add: window_add)
qed

lemma grab_spec:
  assumes wf: "pool_wf p"
    and pre: "size_chunk c + unat d \<le> capacity c"
    and ne: "free_pool_count p \<noteq> 0"
  shows "\<exists>p'. grab d c p =
           Inr (kErrorCodeOk,
                push_back (take (min (unat d) (unat (free_pool_count p))) (live_window p)) c, p') \<and>
         pool_wf p' \<and>
         live_window p' = drop (min (unat d) (unat (free_pool_count p))) (live_window p) \<and>
         unat (free_pool_count p') = unat (free_pool_count p) - min (unat d) (unat (free_pool_count p)) \<and>
         free_pool p' = free_pool p \<and>
         free_pool_capacity p' = free_pool_capacity p \<and>
         pool_size p' = pool_size p \<and>
         pages_for_free_pool p' = pages_for_free_pool p"
proof -
  define gc where "gc = min (ucast d) (free_pool_count p)"
  define k where "k = min (unat d) (unat (free_pool_count p))"
  define cap where "cap = unat (free_pool_capacity p)"
  define h where "h = unat (free_pool_head p)"
  define n where "n = unat (free_pool_count p)"
  have k: "unat gc = k"
    by (simp add: gc_def k_def unat_min_64 unat_ucast_32_64)
  have bounds: "cap \<le> 2 ^ 32" "h \<le> cap" "n \<le> cap" "length (free_pool p) = cap" "k \<le> n"
    using wf by (simp_all add: pool_wf_def word_le_nat_alt cap_def h_def n_def k_def)
  have gcle: "gc \<le> free_pool_count p"
    by (simp add: gc_def)
  have cnt: "unat (free_pool_count p - gc) = n - k"
    using gcle k by (simp add: unat_sub_64 n_def)
  show ?thesis
  proof (cases "h + k \<le> cap")
    case True
    define p' where "p' = p\<lparr>free_pool_head := free_pool_head p + gc,
            free_pool_count := free_pool_count p - gc\<rparr>"
    have g: "grab d c p = Inr (kErrorCodeOk, push_back (take k (live_window p)) c, p')"
      using grab_nowrap [OF wf pre ne] True
      by (simp add: h_def k_def cap_def p'_def gc_def)
    have hd: "unat (free_pool_head p') = h + k"
      using bounds True k by (simp add: p'_def unat_add_64 h_def)
    have "pool_wf p'"
      using bounds True hd cnt by (simp add: pool_wf_def word_le_nat_alt p'_def cap_def)
    moreover have "live_window p' = drop k (live_window p)"
      using hd cnt
      by (simp add: live_window_def drop_window p'_def cap_def h_def n_def)
    ultimately show ?thesis
      using g cnt by (auto simp: p'_def k_def n_def)
  next
    case False
    define p' where "p' = p\<lparr>free_pool_head := gc - (free_pool_capacity p - free_pool_head p),
            free_pool_count := free_pool_count p - gc\<rparr>"
    have g: "grab d c p = Inr (kErrorCodeOk, push_back (take k (live_window p)) c, p')"
      using grab_wrap [OF wf pre ne] False
      by (simp add: h_def k_def cap_def p'_def gc_def)
    have w: "unat (free_pool_capacity p - free_pool_head p) = cap - h"
      using wf by (simp add: unat_sub_64 pool_wf_def cap_def h_def)
    have "free_pool_capacity p - free_pool_head p \<le> gc"
      using w k False bounds by (simp add: word_le_nat_alt)
    then have hd: "unat (free_pool_head p') = k - (cap - h)"
      using w k by (simp add: p'_def unat_sub_64)
    have hd2: "h + k = unat (free_pool_head p') + cap"
      using hd False bounds by simp
    have "k - (cap - h) \<le> cap" "n - k \<le> cap"
      using bounds by arith+
    then have "pool_wf p'"
      using bounds hd cnt by (simp add: pool_wf_def word_le_nat_alt p'_def cap_def [symmetric])
    moreover have "live_window p' = drop k (live_window p)"
      using cnt window_shift [of "free_pool p" cap "unat (free_pool_head p')" "n - k"]
      by (simp add: live_window_def drop_window cap_def [symmetric] h_def [symmetric]
          n_def [symmetric] hd2) (simp add: p'_def cap_def)
    ultimately show ?thesis
      using g cnt by (auto simp: p'_def k_def n_def)
  qed
qed

lemma release_spec:
  assumes wf: "pool_wf p"
    and pre: "unat d \<le> size_chunk c"
    and room: "unat (free_pool_count p) + unat d \<le> unat (free_pool_capacity p)"
  shows "\<exists>p' m first second. release d c p =
           Inr (c\<lparr>chunk_offsets := take (size_chunk c - unat d) (chunk_offsets c)\<rparr>, p') \<and>
         pool_wf p' \<and>
         live_window p' =
           live_window p @ rotate m (drop (size_chunk c - unat d) (chunk_offsets c)) \<and>
         first @ second = rotate m (drop (size_chunk c - unat d) (chunk_offsets c)) \<and>
         free_pool p' =
           write_range
             (write_range (free_pool p)
                (if unat (free_pool_capacity p) \<le> unat (free_pool_head p) + unat (free_pool_count p)
                 then unat (free_pool_head p) + unat (free_pool_count p) - unat (free_pool_capacity p)
                 else unat (free_pool_head p) + unat (free_pool_count p))
                first)
             0 second \<and>
         unat (free_pool_count p') = unat (free_pool_count p) + unat d \<and>
         free_pool_head p' = free_pool_head p \<and>
         free_pool_capacity p' = free_pool_capacity p \<and>
         pool_size p' = pool_size p \<and>
         pages_for_free_pool p' = pages_for_free_pool p"
proof -
  define cap where "cap = unat (free_pool_capacity p)"
  define h where "h = unat (free_pool_head p)"
  define n where "n = unat (free_pool_count p)"
  define r where "r = unat d"
  define s where "s = size_chunk c"
  define ch where "ch = chunk_offsets c"
  define t where "t = (if cap \<le> h + n then h + n - cap else h + n)"
  have bounds: "cap \<le> 2 ^ 32" "h \<le> cap" "n \<le> cap" "length (free_pool p) = cap"
    "r \<le> s" "n + r \<le> cap" "length ch = s"
    using wf pre room
    by (simp_all add: pool_wf_def word_le_nat_alt cap_def h_def n_def r_def s_def ch_def size_chunk_def)
  have t3: "h + n = t \<or> h + n = t + cap \<or> h + n = t + 2 * cap"
    by (auto simp: t_def)
  have cnt: "unat (free_pool_count p + ucast d) = n + r"
    using bounds by (simp add: unat_add_64 unat_ucast_32_64 n_def r_def)
  show ?thesis
  proof (cases "t + r \<le> cap")
    case True
    define moved where "moved = drop (s - r) ch"
    define p' where "p' = p\<lparr>free_pool := write_range (free_pool p) t moved,
            free_pool_count := free_pool_count p + ucast d\<rparr>"
    have rel: "release d c p = Inr (c\<lparr>chunk_offsets := take (s - r) ch\<rparr>, p')"
      using release_nowrap [OF wf pre room, of t] True
      by (simp add: t_def cap_def h_def n_def r_def s_def ch_def p'_def moved_def)
    have len: "length moved = r"
      using bounds by (simp add: moved_def)
    have fits: "t + length moved \<le> cap" "n + length moved \<le> cap"
      using True bounds len by simp_all
    have "window (write_range (free_pool p) t moved) cap h (n + length moved)
        = window (free_pool p) cap h n @ moved"
      using bounds fits t3 by (intro window_after_write) simp_all
    then have lw: "live_window p' = live_window p @ rotate 0 moved"
      using cnt len
      by (simp add: live_window_def p'_def cap_def [symmetric] h_def [symmetric] n_def [symmetric])
    have "pool_wf p'"
      using bounds fits cnt wf
      by (simp add: pool_wf_def word_le_nat_alt p'_def cap_def [symmetric] h_def [symmetric])
    then show ?thesis
      using rel lw cnt
      by (intro exI [of _ p'] exI [of _ 0] exI [of _ moved] exI [of _ "[]"])
         (simp add: p'_def s_def r_def ch_def moved_def n_def t_def cap_def h_def write_range_def)
  next
    case False
    define w where "w = cap - t"
    define m1 where "m1 = drop (s - w) ch"
    define m2 where "m2 = drop (s - r) (take (s - w) ch)"
    define p' where "p' = p\<lparr>free_pool := write_range (write_range (free_pool p) t m1) 0 m2,
            free_pool_count := free_pool_count p + ucast d\<rparr>"
    have rel: "release d c p = Inr (c\<lparr>chunk_offsets := take (s - r) ch\<rparr>, p')"
      using release_wrap [OF wf pre room, of t w] False
      by (simp add: t_def cap_def h_def n_def r_def s_def ch_def p'_def m1_def m2_def w_def)
    have tcap: "t \<le> cap"
      using bounds by (auto simp: t_def)
    have wr: "w < r" "t + w = cap"
      using False tcap by (simp_all add: w_def)
    have len: "length m1 = w" "length m2 = r - w"
      using bounds wr by (simp_all add: m1_def m2_def)
    have step1: "window (write_range (free_pool p) t m1) cap h (n + length m1)
        = window (free_pool p) cap h n @ m1"
      using bounds len wr t3 by (intro window_after_write) simp_all
    have t3': "h + (n + length m1) = 0 \<or> h + (n + length m1) = 0 + cap
         \<or> h + (n + length m1) = 0 + 2 * cap"
    proof -
      have "n + w < cap"
        using wr bounds by simp
      then have "h + n \<noteq> t + 2 * cap"
        using bounds by simp
      then show ?thesis
        using t3 len wr by auto
    qed
    have "window (write_range (write_range (free_pool p) t m1) 0 m2) cap h ((n + length m1) + length m2)
        = window (write_range (free_pool p) t m1) cap h (n + length m1) @ m2"
      using bounds len wr t3' by (intro window_after_write) simp_all
    moreover have "n + length m1 + length m2 = n + r"
      using len wr by simp
    ultimately have "window (write_range (write_range (free_pool p) t m1) 0 m2) cap h (n + r)
        = window (free_pool p) cap h n @ m1 @ m2"
      using step1 by simp
    moreover have rot: "m1 @ m2 = rotate (r - w) (drop (s - r) ch)"
    proof -
      have "drop (s - r) ch = m2 @ m1"
      proof -
        have "drop (s - r) ch = drop (s - r) (take (s - w) ch @ drop (s - w) ch)"
          by simp
        also have "\<dots> = m2 @ m1"
          using bounds wr unfolding m1_def m2_def by (subst drop_append) simp
        finally show ?thesis .
      qed
      then show ?thesis
        using len rotate_append [of m2 m1] by simp
    qed
    ultimately have lw: "live_window p' = live_window p @ rotate (r - w) (drop (s - r) ch)"
      using cnt
      by (simp add: live_window_def p'_def cap_def [symmetric] h_def [symmetric] n_def [symmetric])
    have "pool_wf p'"
      using bounds len wr cnt wf
      by (simp add: pool_wf_def word_le_nat_alt p'_def cap_def [symmetric] h_def [symmetric])
    then show ?thesis
      using rel lw cnt rot
      by (intro exI [of _ p'] exI [of _ "r - w"] exI [of _ m1] exI [of _ m2])
         (simp add: p'_def s_def r_def ch_def n_def t_def cap_def h_def)
  qed
qed

subsection \<open>The calls\<close>

lemma live_window_segments:
  assumes wf: "pool_wf p" and k: "k \<le> unat (free_pool_count p)"
  shows "take k (live_window p) =
     read_range (free_pool p) (unat (free_pool_head p))
       (min k (unat (free_pool_capacity p) - unat (free_pool_head p))) @
     read_range (free_pool p) 0
       (k - min k (unat (free_pool_capacity p) - unat (free_pool_head p)))"
proof -
  define cap where "cap = unat (free_pool_capacity p)"
  define h where "h = unat (free_pool_head p)"
  define a where "a = free_pool p"
  have bounds: "h \<le> cap" "unat (free_pool_count p) \<le> cap" "length a = cap"
    using wf by (simp_all add: pool_wf_def word_le_nat_alt cap_def h_def a_def)
  have tk: "take k (live_window p) = window a cap h k"
    using k by (simp add: live_window_def take_window cap_def h_def a_def)
  show ?thesis
  proof (cases "h + k \<le> cap")
    case True
    then have "min k (cap - h) = k" by simp
    moreover have "read_range a h k = window a cap h k"
      using True bounds by (intro window_read_range) simp_all
    ultimately show ?thesis
      using tk by (simp add: cap_def [symmetric] h_def [symmetric] a_def [symmetric] read_range_def)
  next
    case False
    then have m: "min k (cap - h) = cap - h" by simp
    have "window a cap h k = window a cap h (cap - h) @ window a cap 0 (k - (cap - h))"
      using False bounds by (intro window_wrap_split) simp_all
    moreover have "read_range a h (cap - h) = window a cap h (cap - h)"
      using bounds by (intro window_read_range) simp_all
    moreover have "read_range a 0 (k - (cap - h)) = window a cap 0 (k - (cap - h))"
      using bounds k by (intro window_read_range) simp_all
    ultimately show ?thesis
      using tk m by (simp add: cap_def [symmetric] h_def [symmetric] a_def [symmetric])
  qed
qed

text \<open>
  C5.  On a pool with free pages, and with room in the chunk for the desired count,
  \<open>grab\<close> returns success and moves exactly \<open>k = min(desired, free_pool_count)\<close> offsets:
  the first \<open>k\<close> of the live window, appended to the chunk in that order.  They are read
  from the array in at most two contiguous ranges, one from the head up to the end of the
  array and one from slot 0.  The live window loses exactly those \<open>k\<close> and the count drops
  by \<open>k\<close>.  When fewer than desired are free, \<open>k\<close> is the count and the call still
  succeeds.
\<close>

theorem grab_transfers_head_of_free_list:
  assumes "pool_wf p"
    and "0 < free_pool_count p"
    and "size_chunk chunk + unat desired \<le> capacity chunk"
  shows "let k = min (unat desired) (unat (free_pool_count p));
             h = unat (free_pool_head p);
             first = min k (unat (free_pool_capacity p) - h)
         in \<exists>p'. grab desired chunk p =
                   Inr (kErrorCodeOk,
                        chunk\<lparr>chunk_offsets := chunk_offsets chunk @ take k (live_window p)\<rparr>, p') \<and>
                 take k (live_window p) =
                   read_range (free_pool p) h first @ read_range (free_pool p) 0 (k - first) \<and>
                 live_window p' = drop k (live_window p) \<and>
                 unat (free_pool_count p') = unat (free_pool_count p) - k \<and>
                 free_pool p' = free_pool p \<and>
                 free_pool_capacity p' = free_pool_capacity p"
proof -
  have ne: "free_pool_count p \<noteq> 0"
    using assms(2) by auto
  have seg: "take (min (unat desired) (unat (free_pool_count p))) (live_window p) =
     read_range (free_pool p) (unat (free_pool_head p))
       (min (min (unat desired) (unat (free_pool_count p)))
          (unat (free_pool_capacity p) - unat (free_pool_head p))) @
     read_range (free_pool p) 0
       (min (unat desired) (unat (free_pool_count p))
          - min (min (unat desired) (unat (free_pool_count p)))
              (unat (free_pool_capacity p) - unat (free_pool_head p)))"
    using assms(1) by (intro live_window_segments) simp_all
  from grab_spec [OF assms(1) assms(3) ne] obtain p' where
    "grab desired chunk p =
       Inr (kErrorCodeOk,
            push_back (take (min (unat desired) (unat (free_pool_count p))) (live_window p)) chunk, p')"
    "live_window p' = drop (min (unat desired) (unat (free_pool_count p))) (live_window p)"
    "unat (free_pool_count p') = unat (free_pool_count p) - min (unat desired) (unat (free_pool_count p))"
    "free_pool p' = free_pool p" "free_pool_capacity p' = free_pool_capacity p"
    by blast
  then show ?thesis
    using seg unfolding Let_def push_back_def by (intro exI [of _ p']) simp
qed

text \<open>The theorem at a concrete pool of four pages.\<close>

theorem grab_transfers_head_of_free_list_witness:
  "pool_wf pool4 \<and> 0 < free_pool_count pool4 \<and>
   size_chunk chunk8 + unat (5 :: 32 word) \<le> capacity chunk8 \<and>
   live_window pool4 = [4, 1, 2] \<and>
   (\<exists>p'. grab 5 chunk8 pool4 = Inr (kErrorCodeOk, chunk8\<lparr>chunk_offsets := [4, 1, 2]\<rparr>, p') \<and>
         live_window p' = [] \<and> unat (free_pool_count p') = 0)"
proof -
  have h: "pool_wf pool4" "0 < free_pool_count pool4"
    "size_chunk chunk8 + unat (5 :: 32 word) \<le> capacity chunk8"
    by (simp_all add: pool_wf_def pool4_def chunk8_def size_chunk_def)
  have lw: "live_window pool4 = [4, 1, 2]"
    by (simp add: live_window_def window_def pool4_def upt_rec)
  show ?thesis
    using h lw grab_transfers_head_of_free_list [OF h]
    by (simp add: Let_def) (auto simp: pool4_def chunk8_def)
qed

text \<open>
  C7.  With room in the chunk for the desired count, \<open>grab\<close> returns the error code
  \<open>kErrorCodeMemoryNoFreePages\<close> exactly when \<open>free_pool_count\<close> is 0, and then the chunk
  and the pool it hands back are the ones it was given.
\<close>

theorem grab_no_free_pages_iff_empty:
  assumes "size_chunk chunk + unat desired \<le> capacity chunk"
  shows "grab desired chunk p = Inr (kErrorCodeMemoryNoFreePages, chunk', p') \<longleftrightarrow>
         free_pool_count p = 0 \<and> chunk' = chunk \<and> p' = p"
  using assms by (auto simp: grab_def Let_def split: if_splits prod.splits)

text \<open>The theorem at a concrete pool of four pages.\<close>

theorem grab_no_free_pages_iff_empty_witness:
  "size_chunk chunk8 + unat (2 :: 32 word) \<le> capacity chunk8 \<and>
   free_pool_count pool4_empty = 0 \<and>
   grab 2 chunk8 pool4_empty = Inr (kErrorCodeMemoryNoFreePages, chunk8, pool4_empty) \<and>
   free_pool_count pool4 \<noteq> 0 \<and>
   grab 2 chunk8 pool4 \<noteq> Inr (kErrorCodeMemoryNoFreePages, chunk8, pool4)"
proof -
  have h: "size_chunk chunk8 + unat (2 :: 32 word) \<le> capacity chunk8"
    by (simp add: chunk8_def size_chunk_def)
  have z: "free_pool_count pool4_empty = 0" "free_pool_count pool4 \<noteq> 0"
    by (simp_all add: pool4_empty_def pool4_def)
  show ?thesis
    using h z grab_no_free_pages_iff_empty [OF h, of pool4_empty chunk8 pool4_empty]
      grab_no_free_pages_iff_empty [OF h, of pool4 chunk8 pool4]
    by simp
qed

text \<open>
  C10.  Grabbing zero pages: on a pool with no free page the call still returns
  \<open>kErrorCodeMemoryNoFreePages\<close>; on a pool with a free page it returns success and
  leaves the chunk and the pool exactly as they were.
\<close>

theorem grab_zero_pages:
  assumes "pool_wf p"
    and "size_chunk chunk \<le> capacity chunk"
  shows "(free_pool_count p = 0 \<longrightarrow>
            grab 0 chunk p = Inr (kErrorCodeMemoryNoFreePages, chunk, p)) \<and>
         (0 < free_pool_count p \<longrightarrow> grab 0 chunk p = Inr (kErrorCodeOk, chunk, p))"
proof (intro conjI impI)
  assume "free_pool_count p = 0"
  then show "grab 0 chunk p = Inr (kErrorCodeMemoryNoFreePages, chunk, p)"
    using assms(2) by (simp add: grab_def)
next
  assume "0 < free_pool_count p"
  then have ne: "free_pool_count p \<noteq> 0"
    by auto
  have pre: "size_chunk chunk + unat (0 :: 32 word) \<le> capacity chunk"
    using assms(2) by simp
  have nowrap: "unat (free_pool_head p) + min (unat (0 :: 32 word)) (unat (free_pool_count p))
      \<le> unat (free_pool_capacity p)"
    using assms(1) by (simp add: pool_wf_def word_le_nat_alt)
  show "grab 0 chunk p = Inr (kErrorCodeOk, chunk, p)"
    using grab_nowrap [OF assms(1) pre ne nowrap] by (simp add: push_back_def)
qed

text \<open>The theorem at a concrete pool of four pages.\<close>

theorem grab_zero_pages_witness:
  "pool_wf pool4 \<and> pool_wf pool4_empty \<and> size_chunk chunk8 \<le> capacity chunk8 \<and>
   free_pool_count pool4_empty = 0 \<and> 0 < free_pool_count pool4 \<and>
   grab 0 chunk8 pool4_empty = Inr (kErrorCodeMemoryNoFreePages, chunk8, pool4_empty) \<and>
   grab 0 chunk8 pool4 = Inr (kErrorCodeOk, chunk8, pool4)"
proof -
  have h: "pool_wf pool4" "pool_wf pool4_empty" "size_chunk chunk8 \<le> capacity chunk8"
    by (simp_all add: pool_wf_def pool4_def pool4_empty_def chunk8_def size_chunk_def)
  have z: "free_pool_count pool4_empty = 0" "0 < free_pool_count pool4"
    by (simp_all add: pool4_empty_def pool4_def)
  show ?thesis
    using h z grab_zero_pages [OF h(1) h(3)] grab_zero_pages [OF h(2) h(3)] by simp
qed

text \<open>
  C6.  A release of \<open>desired\<close> offsets from a chunk that holds at least as many: if the
  free count plus \<open>desired\<close> exceeds the capacity, the call aborts with the duplicate-page
  error.  Otherwise the last \<open>desired\<close> offsets leave the chunk and are appended to the
  live window, written to the array in at most two ranges (from the tail slot, then from
  slot 0), and the count grows by exactly \<open>desired\<close>.  On wrap-around the two ranges are
  taken from the end of the chunk first, so the appended offsets are a rotation of the
  released ones.
\<close>

theorem release_appends_at_tail_or_aborts:
  assumes "pool_wf p"
    and "unat desired \<le> size_chunk chunk"
  shows "(unat (free_pool_capacity p) < unat (free_pool_count p) + unat desired \<longrightarrow>
            release desired chunk p = Inl (CoerceError kErrorCodeMemoryDuplicatePage)) \<and>
         (unat (free_pool_count p) + unat desired \<le> unat (free_pool_capacity p) \<longrightarrow>
            (let released = drop (size_chunk chunk - unat desired) (chunk_offsets chunk);
                 tail = (if unat (free_pool_capacity p)
                            \<le> unat (free_pool_head p) + unat (free_pool_count p)
                         then unat (free_pool_head p) + unat (free_pool_count p)
                              - unat (free_pool_capacity p)
                         else unat (free_pool_head p) + unat (free_pool_count p))
             in \<exists>p' m first second.
                  release desired chunk p =
                    Inr (chunk\<lparr>chunk_offsets :=
                           take (size_chunk chunk - unat desired) (chunk_offsets chunk)\<rparr>, p') \<and>
                  live_window p' = live_window p @ rotate m released \<and>
                  first @ second = rotate m released \<and>
                  free_pool p' = write_range (write_range (free_pool p) tail first) 0 second \<and>
                  unat (free_pool_count p') = unat (free_pool_count p) + unat desired))"
proof (intro conjI impI)
  assume over: "unat (free_pool_capacity p) < unat (free_pool_count p) + unat desired"
  have "unat (free_pool_count p) \<le> 2 ^ 32"
    using assms(1) by (simp add: pool_wf_def word_le_nat_alt)
  then have "unat (free_pool_count p + ucast desired) = unat (free_pool_count p) + unat desired"
    using unat_32_bound [of desired] by (simp add: unat_add_64 unat_ucast_32_64)
  then have "free_pool_capacity p < free_pool_count p + ucast desired"
    using over by (simp add: word_less_nat_alt)
  then show "release desired chunk p = Inl (CoerceError kErrorCodeMemoryDuplicatePage)"
    using assms(2) by (simp add: release_def)
next
  assume room: "unat (free_pool_count p) + unat desired \<le> unat (free_pool_capacity p)"
  from release_spec [OF assms room] show "let released = drop (size_chunk chunk - unat desired) (chunk_offsets chunk);
                 tail = (if unat (free_pool_capacity p)
                            \<le> unat (free_pool_head p) + unat (free_pool_count p)
                         then unat (free_pool_head p) + unat (free_pool_count p)
                              - unat (free_pool_capacity p)
                         else unat (free_pool_head p) + unat (free_pool_count p))
             in \<exists>p' m first second.
                  release desired chunk p =
                    Inr (chunk\<lparr>chunk_offsets :=
                           take (size_chunk chunk - unat desired) (chunk_offsets chunk)\<rparr>, p') \<and>
                  live_window p' = live_window p @ rotate m released \<and>
                  first @ second = rotate m released \<and>
                  free_pool p' = write_range (write_range (free_pool p) tail first) 0 second \<and>
                  unat (free_pool_count p') = unat (free_pool_count p) + unat desired"
    unfolding Let_def by blast
qed

text \<open>The theorem at a concrete pool of four pages.\<close>

theorem release_appends_at_tail_or_aborts_witness:
  "pool_wf pool4 \<and> pool_wf pool4_low \<and> unat (2 :: 32 word) \<le> size_chunk chunk8_held \<and>
   release 2 chunk8_held pool4 = Inl (CoerceError kErrorCodeMemoryDuplicatePage) \<and>
   live_window pool4_low = [2, 3] \<and>
   (\<exists>p'. release 2 chunk8_held pool4_low = Inr (chunk8_held\<lparr>chunk_offsets := []\<rparr>, p') \<and>
         set (live_window p') = {2, 3, 4, 1} \<and> unat (free_pool_count p') = 4)"
proof -
  have h: "pool_wf pool4" "pool_wf pool4_low" "unat (2 :: 32 word) \<le> size_chunk chunk8_held"
    by (simp_all add: pool_wf_def pool4_def pool4_low_def chunk8_held_def size_chunk_def)
  have lw: "live_window pool4_low = [2, 3]"
    by (simp add: live_window_def window_def pool4_low_def upt_rec)
  have over: "unat (free_pool_capacity pool4) < unat (free_pool_count pool4) + unat (2 :: 32 word)"
    by (simp add: pool4_def)
  have room: "unat (free_pool_count pool4_low) + unat (2 :: 32 word) \<le> unat (free_pool_capacity pool4_low)"
    by (simp add: pool4_low_def)
  have sz: "size_chunk chunk8_held - unat (2 :: 32 word) = 0"
    by (simp add: chunk8_held_def size_chunk_def)
  from release_appends_at_tail_or_aborts [OF h(1) h(3)] over
  have a: "release 2 chunk8_held pool4 = Inl (CoerceError kErrorCodeMemoryDuplicatePage)"
    by blast
  from release_appends_at_tail_or_aborts [OF h(2) h(3)] room
  obtain p' m where "release 2 chunk8_held pool4_low =
      Inr (chunk8_held\<lparr>chunk_offsets := take (size_chunk chunk8_held - unat (2 :: 32 word))
             (chunk_offsets chunk8_held)\<rparr>, p')"
    "live_window p' = live_window pool4_low
       @ rotate m (drop (size_chunk chunk8_held - unat (2 :: 32 word)) (chunk_offsets chunk8_held))"
    "unat (free_pool_count p') = unat (free_pool_count pool4_low) + unat (2 :: 32 word)"
    unfolding Let_def by blast
  then have "release 2 chunk8_held pool4_low = Inr (chunk8_held\<lparr>chunk_offsets := []\<rparr>, p') \<and>
         set (live_window p') = {2, 3, 4, 1} \<and> unat (free_pool_count p') = 4"
    using lw sz by (simp add: chunk8_held_def pool4_low_def)
  then show ?thesis
    using h a lw by blast
qed

lemma unat_word_of_nat_32: "n < 2 ^ 32 \<Longrightarrow> unat (word_of_nat n :: 32 word) = n"
  by (simp add: unat_of_nat)

lemma mset_rotate_eq [simp]: "mset (rotate n xs) = mset xs"
proof -
  have "mset (drop k xs @ take k xs) = mset (take k xs @ drop k xs)" for k
    by (simp only: mset_append add.commute)
  moreover have "mset (take k xs @ drop k xs) = mset xs" for k
    by (simp only: append_take_drop_id)
  ultimately show ?thesis
    by (simp only: rotate_drop_take)
qed

lemma length_live_window [simp]: "length (live_window p) = unat (free_pool_count p)"
  by (simp add: live_window_def)

text \<open>
  C8.  Round trip.  From any well-formed pool, grabbing \<open>n\<close> offsets into an empty chunk
  and releasing what the chunk then holds (all \<open>n\<close> of them when that many were free,
  otherwise the partial grant) hands the chunk back empty and leaves the pool with the
  count it had and with the same free offsets, as a set and as a multiset; their order in
  the queue may differ.
\<close>

theorem grab_then_release_round_trip:
  assumes "pool_wf p"
    and "chunk_offsets chunk = []"
    and "unat n \<le> capacity chunk"
  shows "\<exists>error_code chunk' p' p''.
           grab n chunk p = Inr (error_code, chunk', p') \<and>
           size_chunk chunk' = min (unat n) (unat (free_pool_count p)) \<and>
           release (word_of_nat (size_chunk chunk')) chunk' p' = Inr (chunk, p'') \<and>
           free_pool_count p'' = free_pool_count p \<and>
           set (live_window p'') = set (live_window p) \<and>
           mset (live_window p'') = mset (live_window p)"
proof -
  define k where "k = min (unat n) (unat (free_pool_count p))"
  have k32: "unat (word_of_nat k :: 32 word) = k"
    using unat_32_bound [of n] by (intro unat_word_of_nat_32) (simp add: k_def)
  have pre: "size_chunk chunk + unat n \<le> capacity chunk"
    using assms(2,3) by (simp add: size_chunk_def)
  have wfb: "unat (free_pool_count p) \<le> unat (free_pool_capacity p)"
    using assms(1) by (simp add: pool_wf_def word_le_nat_alt)
  obtain error_code chunk' p' where
    g: "grab n chunk p = Inr (error_code, chunk', p')"
    and c': "chunk' = chunk\<lparr>chunk_offsets := take k (live_window p)\<rparr>"
    and wf': "pool_wf p'"
    and lw': "live_window p' = drop k (live_window p)"
    and cnt': "unat (free_pool_count p') = unat (free_pool_count p) - k"
    and cap': "free_pool_capacity p' = free_pool_capacity p"
  proof (cases "free_pool_count p = 0")
    case True
    then have "grab n chunk p = Inr (kErrorCodeMemoryNoFreePages, chunk, p)"
      using pre by (simp add: grab_def)
    moreover have "chunk = chunk\<lparr>chunk_offsets := take k (live_window p)\<rparr>"
      using True assms(2) by (simp add: k_def)
    ultimately show ?thesis
      using that [of kErrorCodeMemoryNoFreePages chunk p] assms(1) True by (simp add: k_def)
  next
    case False
    from grab_spec [OF assms(1) pre False] obtain p' where
      "grab n chunk p = Inr (kErrorCodeOk, push_back (take k (live_window p)) chunk, p')"
      "pool_wf p'" "live_window p' = drop k (live_window p)"
      "unat (free_pool_count p') = unat (free_pool_count p) - k"
      "free_pool_capacity p' = free_pool_capacity p"
      unfolding k_def by blast
    then show ?thesis
      using that [of kErrorCodeOk "push_back (take k (live_window p)) chunk" p'] assms(2)
      by (simp add: push_back_def)
  qed
  have sz: "size_chunk chunk' = k"
    by (simp add: c' size_chunk_def k_def)
  have rpre: "unat (word_of_nat k :: 32 word) \<le> size_chunk chunk'"
    by (simp add: k32 sz)
  have room: "unat (free_pool_count p') + unat (word_of_nat k :: 32 word) \<le> unat (free_pool_capacity p')"
  proof -
    have "k \<le> unat (free_pool_count p)"
      by (simp add: k_def)
    then show ?thesis
      using wfb by (simp add: k32 cnt' cap')
  qed
  from release_spec [OF wf' rpre room] obtain p'' m where
    r: "release (word_of_nat k) chunk' p' =
          Inr (chunk'\<lparr>chunk_offsets :=
                 take (size_chunk chunk' - unat (word_of_nat k :: 32 word)) (chunk_offsets chunk')\<rparr>, p'')"
    and lw'': "live_window p'' = live_window p'
          @ rotate m (drop (size_chunk chunk' - unat (word_of_nat k :: 32 word)) (chunk_offsets chunk'))"
    and cnt'': "unat (free_pool_count p'') = unat (free_pool_count p') + unat (word_of_nat k :: 32 word)"
    by blast
  have z: "size_chunk chunk' - unat (word_of_nat k :: 32 word) = 0"
    by (simp add: k32 sz)
  have co: "chunk_offsets chunk' = take k (live_window p)"
    by (simp add: c')
  have restored: "chunk'\<lparr>chunk_offsets :=
       take (size_chunk chunk' - unat (word_of_nat k :: 32 word)) (chunk_offsets chunk')\<rparr> = chunk"
  proof -
    have "size_chunk chunk' - unat (word_of_nat k :: 32 word) = 0"
      by (simp add: k32 sz)
    then show ?thesis
      using assms(2) by (cases chunk) (simp add: c')
  qed
  have "k \<le> unat (free_pool_count p)"
    by (simp add: k_def)
  then have "unat (free_pool_count p'') = unat (free_pool_count p)"
    by (simp add: cnt'' cnt' k32)
  then have cnt: "free_pool_count p'' = free_pool_count p"
    by (simp add: word_unat_eq_iff)
  have ms: "mset (live_window p'') = mset (live_window p)"
  proof -
    have "mset (live_window p'') = mset (drop k (live_window p)) + mset (take k (live_window p))"
      by (simp add: lw'' lw' z co)
    also have "\<dots> = mset (take k (live_window p) @ drop k (live_window p))"
      by (simp only: mset_append add.commute)
    also have "\<dots> = mset (live_window p)"
      by (simp only: append_take_drop_id)
    finally show ?thesis .
  qed
  then have "set (live_window p'') = set (live_window p)"
    by (rule mset_eq_setD)
  then show ?thesis
    using g r restored cnt ms sz by (auto simp: k_def)
qed

text \<open>The round trip at a concrete pool whose head wraps.\<close>

theorem grab_then_release_round_trip_witness:
  "pool_wf pool4 \<and> chunk_offsets chunk8 = [] \<and> unat (2 :: 32 word) \<le> capacity chunk8 \<and>
   (\<exists>p' p''. grab 2 chunk8 pool4 = Inr (kErrorCodeOk, chunk8\<lparr>chunk_offsets := [4, 1]\<rparr>, p') \<and>
      release 2 (chunk8\<lparr>chunk_offsets := [4, 1]\<rparr>) p' = Inr (chunk8, p'') \<and>
      free_pool_count p'' = 3 \<and> set (live_window p'') = {4, 1, 2})"
proof -
  have h: "pool_wf pool4" "chunk_offsets chunk8 = []" "unat (2 :: 32 word) \<le> capacity chunk8"
    by (simp_all add: pool_wf_def pool4_def chunk8_def)
  have lw: "live_window pool4 = [4, 1, 2]"
    by (simp add: live_window_def window_def pool4_def upt_rec)
  have g: "grab 2 chunk8 pool4 = Inr (kErrorCodeOk, chunk8\<lparr>chunk_offsets := [4, 1]\<rparr>,
      pool4\<lparr>free_pool_head := 1, free_pool_count := 1\<rparr>)"
    by (simp add: grab_def pool4_def chunk8_def size_chunk_def push_back_def read_range_def Let_def)
  from grab_then_release_round_trip [OF h] obtain error_code chunk' p' p'' where
    "grab 2 chunk8 pool4 = Inr (error_code, chunk', p')"
    "size_chunk chunk' = min (unat (2 :: 32 word)) (unat (free_pool_count pool4))"
    "release (word_of_nat (size_chunk chunk')) chunk' p' = Inr (chunk8, p'')"
    "free_pool_count p'' = free_pool_count pool4"
    "set (live_window p'') = set (live_window pool4)"
    by blast
  then have "grab 2 chunk8 pool4 = Inr (kErrorCodeOk, chunk8\<lparr>chunk_offsets := [4, 1]\<rparr>, p') \<and>
      release 2 (chunk8\<lparr>chunk_offsets := [4, 1]\<rparr>) p' = Inr (chunk8, p'') \<and>
      free_pool_count p'' = 3 \<and> set (live_window p'') = {4, 1, 2}"
    using g lw by (simp add: pool4_def)
  then show ?thesis
    using h by blast
qed

end
